theory Spec2Isabelle
  imports Main "HOL-Library.Word" "HOL-Library.Multiset"
begin

section \<open>JavaScript values used by App.tsx\<close>

text \<open>
  A JavaScript string is a sequence of UTF-16 code units, and \<open>.length\<close> counts them.
\<close>

type_synonym js_string = "16 word list"

definition ascii :: "string \<Rightarrow> js_string" where
  "ascii s = map of_char s"

text \<open>
  A table cell is \<open>string | number\<close>.  The type of numbers is left open; the
  conversion \<open>Number.prototype.toString\<close> of the host is a parameter \<open>nts\<close>.
\<close>

datatype 'n cell = Str js_string | Num 'n

fun toString :: "('n \<Rightarrow> js_string) \<Rightarrow> 'n cell \<Rightarrow> js_string" where
  "toString nts (Str s) = s"
| "toString nts (Num n) = nts n"

text \<open>
  A JavaScript array: reading past the end, or reading a hole, gives \<open>undefined\<close>
  (\<open>None\<close>); writing past the end extends the array and leaves holes in between.
\<close>

type_synonym 'a js_array = "'a option list"

definition js_get :: "'a js_array \<Rightarrow> nat \<Rightarrow> 'a option" where
  "js_get xs i = (if i < length xs then xs ! i else None)"

definition js_set :: "'a js_array \<Rightarrow> nat \<Rightarrow> 'a \<Rightarrow> 'a js_array" where
  "js_set xs i v =
     (if i < length xs then xs[i := Some v]
      else xs @ replicate (i - length xs) None @ [Some v])"

section \<open>computeWidths\<close>

text \<open>
  \<^verbatim>\<open>charsWidth = 10 + row[i].toString().length * 10;
  if (!widthArr[i] || widthArr[i] < charsWidth) widthArr[i] = charsWidth\<close>
  The test \<open>!widthArr[i]\<close> holds for \<open>undefined\<close> and for the number 0.
\<close>

definition charsWidth :: "('n \<Rightarrow> js_string) \<Rightarrow> 'n cell \<Rightarrow> nat" where
  "charsWidth nts c = 10 + length (toString nts c) * 10"

definition widen :: "nat js_array \<Rightarrow> nat \<Rightarrow> nat \<Rightarrow> nat js_array" where
  "widen widthArr i cw =
     (if (case js_get widthArr i of None \<Rightarrow> True | Some w \<Rightarrow> w = 0 \<or> w < cw)
      then js_set widthArr i cw else widthArr)"

text \<open>The inner loop \<open>for (let i = 0; i < len; i++)\<close> over one row.\<close>

definition scanRow :: "('n \<Rightarrow> js_string) \<Rightarrow> 'n cell list \<Rightarrow> nat js_array \<Rightarrow> nat js_array" where
  "scanRow nts row widthArr =
     fold (\<lambda>i w. widen w i (charsWidth nts (row ! i))) [0..<length row] widthArr"

text \<open>The outer loop \<open>for (let row of rows)\<close>, starting from the empty array.\<close>

definition computeWidths :: "('n \<Rightarrow> js_string) \<Rightarrow> 'n cell list list \<Rightarrow> nat js_array" where
  "computeWidths nts rws = fold (scanRow nts) rws []"

section \<open>View state of the App component\<close>

datatype AuthState = PENDING | NOT_SUPPORTED | AUTHENTICATED | UNAUTHENTICATED

record 'n sheet_data =
  widthArr :: "nat js_array"
  rows :: "'n cell list list"

text \<open>
  \<open>tableData\<close> is an object keyed by sheet name; it is kept as the list of its
  entries in key order (\<open>Object.keys\<close>), \<open>{}\<close> being \<open>[]\<close>.
\<close>

type_synonym 'n table_data = "(js_string \<times> 'n sheet_data) list"

text \<open>A thrown value, known by its conversion to a string.\<close>

datatype js_error = JsError (err_text: js_string)

text \<open>
  What a run does to the outside world and to the React state is recorded, in order,
  as a list of events: calls of the biometrics library, of the console, of \<open>Alert.alert\<close>,
  of the network library, and of the three state setters.
\<close>

datatype 'n event =
    SensorQuery
  | BiometricPrompt js_string
  | ConsoleLog js_string
  | ConsoleWarn js_string js_error
  | ConsoleError js_error
  | Alert js_string js_string
  | NetworkFetch js_string js_string
  | SetAuthenticated AuthState
  | SetTableData "'n table_data"
  | SetLoading bool

record 'n app_state =
  authenticated :: AuthState
  tableData :: "'n table_data"
  loading :: bool
  trace :: "'n event list"

definition initialState :: "'n app_state" where
  "initialState = \<lparr>authenticated = PENDING, tableData = [], loading = False, trace = []\<rparr>"

definition emit :: "'n event \<Rightarrow> 'n app_state \<Rightarrow> 'n app_state" where
  "emit e s = s\<lparr>trace := trace s @ [e]\<rparr>"

definition setAuthenticated :: "AuthState \<Rightarrow> 'n app_state \<Rightarrow> 'n app_state" where
  "setAuthenticated a s = emit (SetAuthenticated a) (s\<lparr>authenticated := a\<rparr>)"

definition setTableData :: "'n table_data \<Rightarrow> 'n app_state \<Rightarrow> 'n app_state" where
  "setTableData td s = emit (SetTableData td) (s\<lparr>tableData := td\<rparr>)"

definition setLoading :: "bool \<Rightarrow> 'n app_state \<Rightarrow> 'n app_state" where
  "setLoading b s = emit (SetLoading b) (s\<lparr>loading := b\<rparr>)"

text \<open>The events a run from \<open>s\<close> to \<open>s'\<close> has added.\<close>

definition emitted :: "'n app_state \<Rightarrow> 'n app_state \<Rightarrow> 'n event list" where
  "emitted s s' = drop (length (trace s)) (trace s')"

fun is_alert :: "'n event \<Rightarrow> bool" where
  "is_alert (Alert t m) = True"
| "is_alert e = False"

fun is_fetch :: "'n event \<Rightarrow> bool" where
  "is_fetch (NetworkFetch m u) = True"
| "is_fetch e = False"

fun is_prompt :: "'n event \<Rightarrow> bool" where
  "is_prompt (BiometricPrompt m) = True"
| "is_prompt e = False"

fun is_setter :: "'n event \<Rightarrow> bool" where
  "is_setter (SetAuthenticated a) = True"
| "is_setter (SetTableData td) = True"
| "is_setter (SetLoading b) = True"
| "is_setter e = False"

section \<open>The external collaborators\<close>

datatype BiometryType = TouchID | FaceID | Biometrics

datatype sensor_result = SensorResult (biometryType: "BiometryType option") (available: bool)

text \<open>
  A response of the network library is known by what its \<open>base64()\<close> gives; a worksheet
  by what \<open>XLSX.utils.sheet_to_json(sheet, {header: 1})\<close> gives for it.  \<open>Sheets\<close> lists
  the sheets in the order in which \<open>for (let sheetName in worksheet.Sheets)\<close> visits them.
\<close>

datatype response = Response (base64: "js_error + js_string")

datatype 'n worksheet = WorkSheet (sheet_to_json: "js_error + 'n cell list list")

datatype 'n workbook = Workbook (Sheets: "(js_string \<times> 'n worksheet) list")

text \<open>
  Each asynchronous call of a library either rejects (\<open>Inl\<close>) or resolves (\<open>Inr\<close>).
  \<open>typeError\<close> is the TypeError that the JavaScript engine throws when a property of
  \<open>undefined\<close> is read; its text depends on the engine.
\<close>

record 'n env =
  isSensorAvailable :: "js_error + sensor_result"
  simplePrompt :: "js_error + bool"
  fetch :: "js_error + response"
  XLSX_read :: "js_string \<Rightarrow> js_error + 'n workbook"
  numberToString :: "'n \<Rightarrow> js_string"
  typeError :: js_error

section \<open>The auth gate\<close>

definition biometryCheckMessage :: "bool \<Rightarrow> BiometryType option \<Rightarrow> js_string" where
  "biometryCheckMessage av bt =
     ascii ''Biometry check | Available: '' @ (if av then ascii ''true'' else ascii ''false'')
     @ ascii '' Type: ''
     @ (case bt of None \<Rightarrow> ascii ''undefined'' | Some TouchID \<Rightarrow> ascii ''TouchID''
        | Some FaceID \<Rightarrow> ascii ''FaceID'' | Some Biometrics \<Rightarrow> ascii ''Biometrics'')"

definition isBiometryAvailable :: "'n env \<Rightarrow> 'n app_state \<Rightarrow> bool \<times> 'n app_state" where
  "isBiometryAvailable e s =
     (let s1 = emit SensorQuery s in
      case isSensorAvailable e of
        Inr r \<Rightarrow> (available r, emit (ConsoleLog (biometryCheckMessage (available r) (biometryType r))) s1)
      | Inl err \<Rightarrow> (False, emit (ConsoleWarn (ascii ''Biometry check failed: '') err) s1))"

definition promptBiometry :: "'n env \<Rightarrow> 'n app_state \<Rightarrow> bool \<times> 'n app_state" where
  "promptBiometry e s =
     (let s1 = emit (BiometricPrompt (ascii ''Confirm fingerprint'')) s in
      case simplePrompt e of
        Inr success \<Rightarrow> (success, s1)
      | Inl err \<Rightarrow> (False, emit (ConsoleWarn (ascii ''Biometry prompt failed: '') err) s1))"

definition tryToAuthenticate :: "'n env \<Rightarrow> 'n app_state \<Rightarrow> 'n app_state" where
  "tryToAuthenticate e s =
     (case isBiometryAvailable e s of
        (True, s1) \<Rightarrow>
          (case promptBiometry e s1 of
             (ok, s2) \<Rightarrow> setAuthenticated (if ok then AUTHENTICATED else UNAUTHENTICATED) s2)
      | (False, s1) \<Rightarrow> setAuthenticated NOT_SUPPORTED s1)"

section \<open>Rendering one sheet\<close>

text \<open>
  The elements \<open>Td\<close> and \<open>Tr\<close> with the properties App.tsx passes to them.  A table is the
  list of what its \<open>map\<close> callback returned: \<open>None\<close> where the callback returned nothing.
\<close>

datatype 'n td_element =
  Td (td_width: "nat option") (td_first: bool) (td_key: nat) (td_children: "'n cell")

datatype 'n tr_element =
  Tr (tr_key: "nat option") (tr_first: bool) (tr_backgroundColor: "js_string option")
     (tr_children: "'n td_element list")

record 'n sheet_view =
  sheetTitle :: js_string
  headerTable :: "'n tr_element"
  rowsTable :: "'n tr_element option list"

definition renderCells :: "nat js_array \<Rightarrow> 'n cell list \<Rightarrow> 'n td_element list" where
  "renderCells w row = map (\<lambda>(k, v). Td (js_get w k) (k = 0) k v) (enumerate 0 row)"

definition renderRow :: "nat js_array \<Rightarrow> nat \<times> 'n cell list \<Rightarrow> 'n tr_element option" where
  "renderRow w = (\<lambda>(j, row).
     if j = 0 \<or> length row = 0 then None
     else Some (Tr (Some j) (j \<le> 1) None (renderCells w row)))"

text \<open>
  \<open>rows[0].map\<close> throws a TypeError when the sheet has no row: there is no view then.
\<close>

definition renderSheet :: "js_string \<Rightarrow> 'n sheet_data \<Rightarrow> 'n sheet_view option" where
  "renderSheet sheetName sd =
     (case rows sd of
        [] \<Rightarrow> None
      | header # _ \<Rightarrow>
          Some \<lparr>sheetTitle = sheetName,
                headerTable = Tr None True (Some (ascii ''#dddddd'')) (renderCells (widthArr sd) header),
                rowsTable = map (renderRow (widthArr sd)) (enumerate 0 (rows sd))\<rparr>)"

definition renderTables :: "'n table_data \<Rightarrow> 'n sheet_view list option" where
  "renderTables td = those (map (\<lambda>(sheetName, sd). renderSheet sheetName sd) td)"

section \<open>fetchTable\<close>

definition downloadUrl :: js_string where
  "downloadUrl = ascii ''https://drive.google.com/uc?export=download&id=1O6bmi4TqBhYl7sMn1gBT2gM4rKf8paFf''"

definition authErrorAlert :: "'n event" where
  "authErrorAlert = Alert (ascii ''Auth error'') (ascii ''Seems like you are not authenticated!'')"

text \<open>The title of the second alert has four letters outside ASCII.\<close>

definition loadErrorTitle :: js_string where
  "loadErrorTitle = ascii ''P'' @ [0x159] @ ascii ''i na'' @ [0x10D, 0xED] @ ascii ''t'' @ [0xE1]
     @ ascii ''n'' @ [0xED] @ ascii '' tabulky se vyskytla chyba''"

text \<open>
  The loop over the sheets.  A sheet whose conversion throws ends the loop; what was
  set before stays set.  The result is the thrown value, if any, and the state.

  The call of \<open>setTableData\<close> in the loop comes after the \<open>await\<close>s, outside any
  event handler of React, so it is not batched: the component is rendered again before
  the call returns.  When that rendering throws (the sheet just set has no row, and
  \<open>rows[0].map\<close> is a property read on \<open>undefined\<close>) the TypeError leaves
  \<open>setTableData\<close> inside the \<open>try\<close> block and ends the loop as well; the value given to
  the setter stays the state.
\<close>

fun processSheets ::
  "'n env \<Rightarrow> (js_string \<times> 'n worksheet) list \<Rightarrow> 'n app_state \<Rightarrow> js_error option \<times> 'n app_state" where
  "processSheets e [] s = (None, s)"
| "processSheets e ((sheetName, ws) # rest) s =
     (case sheet_to_json ws of
        Inl err \<Rightarrow> (Some err, s)
      | Inr rws \<Rightarrow>
          (let s1 = setTableData
                      [(sheetName, \<lparr>widthArr = computeWidths (numberToString e) rws, rows = rws\<rparr>)] s
           in case renderTables (tableData s1) of
                None \<Rightarrow> (Some (typeError e), s1)
              | Some view \<Rightarrow> processSheets e rest s1))"

text \<open>The body of the \<open>try\<close> block.\<close>

definition fetchBody :: "'n env \<Rightarrow> 'n app_state \<Rightarrow> js_error option \<times> 'n app_state" where
  "fetchBody e s =
     (let s1 = emit (NetworkFetch (ascii ''GET'') downloadUrl) s in
      case fetch e of
        Inl err \<Rightarrow> (Some err, s1)
      | Inr res \<Rightarrow>
          (case base64 res of
             Inl err \<Rightarrow> (Some err, s1)
           | Inr b64 \<Rightarrow>
               (case XLSX_read e b64 of
                  Inl err \<Rightarrow> (Some err, s1)
                | Inr worksheet \<Rightarrow> processSheets e (Sheets worksheet) s1)))"

text \<open>
  The two setters before the \<open>try\<close> run inside the press handler and are batched; they
  are rendered with the empty \<open>tableData\<close>, which has no sheet to render.  The
  \<open>tableData\<close> that the last \<open>setLoading\<close> finds is empty or was rendered before, or the
  rendering has thrown and React has unmounted the component.  So no rendering throws
  out of these three calls.
\<close>

definition fetchTable :: "'n env \<Rightarrow> 'n app_state \<Rightarrow> 'n app_state" where
  "fetchTable e s =
     (if authenticated s \<noteq> AUTHENTICATED \<and> authenticated s \<noteq> NOT_SUPPORTED
      then emit authErrorAlert s
      else
        (case fetchBody e (setTableData [] (setLoading True s)) of
           (None, s3) \<Rightarrow> setLoading False s3
         | (Some err, s3) \<Rightarrow>
             setLoading False
               (emit (Alert loadErrorTitle (ascii ''Chyba: '' @ err_text err))
                  (emit (ConsoleError err) s3))))"

text \<open>
  The value of \<open>tableData\<close> after a sequence of events, from the value before it: only
  \<open>setTableData\<close> changes it.
\<close>

fun tableDataAfter :: "'n table_data \<Rightarrow> 'n event list \<Rightarrow> 'n table_data" where
  "tableDataAfter td [] = td"
| "tableDataAfter td (SetTableData td' # evs) = tableDataAfter td' evs"
| "tableDataAfter td (ev # evs) = tableDataAfter td evs"

text \<open>
  The states the view can be in between runs: the initial one, and those that a run of
  \<open>tryToAuthenticate\<close> or of \<open>fetchTable\<close> leaves.
\<close>

inductive reachable :: "'n app_state \<Rightarrow> bool" where
  reachable_initial: "reachable initialState"
| reachable_auth: "reachable s \<Longrightarrow> reachable (tryToAuthenticate e s)"
| reachable_fetch: "reachable s \<Longrightarrow> reachable (fetchTable e s)"

section \<open>Sample inputs\<close>

text \<open>
  In the samples a number is given by its decimal text, so that the conversion of
  numbers to strings is the identity.
\<close>

definition sampleRows :: "js_string cell list list" where
  "sampleRows = [[Str (ascii ''A''), Str (ascii ''B'')], [Str (ascii ''x''), Str (ascii ''yy'')]]"

definition raggedRows :: "js_string cell list list" where
  "raggedRows = [[Str (ascii ''id''), Str (ascii ''name'')], [],
                 [Num (ascii ''7''), Str (ascii ''Widget''), Num (ascii ''12.5'')]]"

definition sampleEnv :: "js_string env" where
  "sampleEnv =
     \<lparr>isSensorAvailable = Inr (SensorResult (Some TouchID) True),
      simplePrompt = Inr True,
      fetch = Inr (Response (Inr (ascii ''UEsDBBQABgAIAAAAIQ==''))),
      XLSX_read = (\<lambda>b64. Inr (Workbook [(ascii ''Sheet1'', WorkSheet (Inr sampleRows)),
                                          (ascii ''Sheet2'', WorkSheet (Inr raggedRows))])),
      numberToString = (\<lambda>s. s),
      typeError = JsError (ascii ''TypeError: undefined is not an object'')\<rparr>"

definition emptyWorkbookEnv :: "js_string env" where
  "emptyWorkbookEnv = sampleEnv\<lparr>XLSX_read := (\<lambda>b64. Inr (Workbook []))\<rparr>"

definition authenticatedState :: "js_string app_state" where
  "authenticatedState = initialState\<lparr>authenticated := AUTHENTICATED\<rparr>"

text \<open>
  A state with a loaded table in which a later authentication has failed.
\<close>

definition staleState :: "js_string app_state" where
  "staleState = tryToAuthenticate (sampleEnv\<lparr>simplePrompt := Inr False\<rparr>)
                  (fetchTable sampleEnv authenticatedState)"

section \<open>Properties of computeWidths\<close>

lemma widen_dense:
  assumes "k \<le> length ws"
  shows "widen (map Some ws) k c =
           map Some (if k < length ws then ws[k := max (ws ! k) c] else ws @ [c])"
  using assms
  by (auto simp: widen_def js_get_def js_set_def map_update max_def list_update_same_conv)

lemma scan_prefix:
  assumes "k \<le> length row"
  shows "\<exists>ws'. fold (\<lambda>i w. widen w i (charsWidth nts (row ! i))) [0..<k] (map Some ws) = map Some ws'
            \<and> length ws' = max k (length ws)
            \<and> (\<forall>i<length ws'. ws' ! i =
                  (if i < k then (if i < length ws then max (ws ! i) (charsWidth nts (row ! i))
                                  else charsWidth nts (row ! i))
                   else ws ! i))"
  using assms
proof (induction k)
  case 0
  then show ?case by simp
next
  case (Suc k)
  then obtain zs where zs:
    "fold (\<lambda>i w. widen w i (charsWidth nts (row ! i))) [0..<k] (map Some ws) = map Some zs"
    "length zs = max k (length ws)"
    "\<forall>i<length zs. zs ! i =
        (if i < k then (if i < length ws then max (ws ! i) (charsWidth nts (row ! i))
                        else charsWidth nts (row ! i))
         else ws ! i)"
    by auto
  let ?c = "charsWidth nts (row ! k)"
  let ?zs' = "if k < length zs then zs[k := max (zs ! k) ?c] else zs @ [?c]"
  have k: "k \<le> length zs" using zs(2) by simp
  have step: "fold (\<lambda>i w. widen w i (charsWidth nts (row ! i))) [0..<Suc k] (map Some ws) = map Some ?zs'"
    using zs(1) widen_dense [OF k] by simp
  have len: "length ?zs' = max (Suc k) (length ws)"
    using zs(2) by auto
  have nth: "\<forall>i<length ?zs'. ?zs' ! i =
        (if i < Suc k then (if i < length ws then max (ws ! i) (charsWidth nts (row ! i))
                        else charsWidth nts (row ! i))
         else ws ! i)"
    using zs(2,3) by (auto simp: nth_list_update nth_append less_Suc_eq)
  from step len nth show ?case by blast
qed

lemma scanRow_dense:
  "\<exists>ws'. scanRow nts row (map Some ws) = map Some ws'
      \<and> length ws' = max (length row) (length ws)
      \<and> (\<forall>i<length ws'. ws' ! i =
            (if i < length row then (if i < length ws then max (ws ! i) (charsWidth nts (row ! i))
                                     else charsWidth nts (row ! i))
             else ws ! i))"
  unfolding scanRow_def using scan_prefix [of "length row" row nts ws] by simp

lemma computeWidths_dense:
  "\<exists>ws. computeWidths nts rws = map Some ws
      \<and> length ws = Max (insert 0 (length ` set rws))
      \<and> (\<forall>i<length ws. (\<forall>r\<in>set rws. i < length r \<longrightarrow> charsWidth nts (r ! i) \<le> ws ! i)
                       \<and> (\<exists>r\<in>set rws. i < length r \<and> ws ! i = charsWidth nts (r ! i)))"
proof (induction rws rule: rev_induct)
  case Nil
  then show ?case by (simp add: computeWidths_def)
next
  case (snoc row rws)
  then obtain ws where ws:
    "computeWidths nts rws = map Some ws"
    "length ws = Max (insert 0 (length ` set rws))"
    "\<forall>i<length ws. (\<forall>r\<in>set rws. i < length r \<longrightarrow> charsWidth nts (r ! i) \<le> ws ! i)
                       \<and> (\<exists>r\<in>set rws. i < length r \<and> ws ! i = charsWidth nts (r ! i))"
    by blast
  obtain ws' where ws':
    "scanRow nts row (map Some ws) = map Some ws'"
    "length ws' = max (length row) (length ws)"
    "\<forall>i<length ws'. ws' ! i =
            (if i < length row then (if i < length ws then max (ws ! i) (charsWidth nts (row ! i))
                                     else charsWidth nts (row ! i))
             else ws ! i)"
    using scanRow_dense by blast
  have eq: "computeWidths nts (rws @ [row]) = map Some ws'"
    using ws(1) ws'(1) by (simp add: computeWidths_def)
  have len: "length ws' = Max (insert 0 (length ` set (rws @ [row])))"
  proof -
    have "Max (insert 0 (length ` set (rws @ [row]))) = Max (insert (length row) (insert 0 (length ` set rws)))"
      by (simp add: insert_commute)
    also have "\<dots> = max (length row) (Max (insert 0 (length ` set rws)))"
      by (rule Max_insert) auto
    finally show ?thesis using ws'(2) ws(2) by simp
  qed
  have short: "\<forall>r\<in>set rws. length r \<le> length ws"
    using ws(2) by (auto intro: Max_ge simp del: Max_insert)
  have ent: "\<forall>i<length ws'. (\<forall>r\<in>set (rws @ [row]). i < length r \<longrightarrow> charsWidth nts (r ! i) \<le> ws' ! i)
                       \<and> (\<exists>r\<in>set (rws @ [row]). i < length r \<and> ws' ! i = charsWidth nts (r ! i))"
  proof (intro allI impI)
    fix i assume i: "i < length ws'"
    show "(\<forall>r\<in>set (rws @ [row]). i < length r \<longrightarrow> charsWidth nts (r ! i) \<le> ws' ! i)
                       \<and> (\<exists>r\<in>set (rws @ [row]). i < length r \<and> ws' ! i = charsWidth nts (r ! i))"
    proof (cases "i < length ws")
      case True
      with ws(3) have old: "\<forall>r\<in>set rws. i < length r \<longrightarrow> charsWidth nts (r ! i) \<le> ws ! i"
        and att: "\<exists>r\<in>set rws. i < length r \<and> ws ! i = charsWidth nts (r ! i)" by auto
      from att obtain r0 where r0: "r0 \<in> set rws" "i < length r0" "ws ! i = charsWidth nts (r0 ! i)" by blast
      show ?thesis
      proof (cases "i < length row")
        case r: True
        then have v: "ws' ! i = max (ws ! i) (charsWidth nts (row ! i))"
          using ws'(3) i True by simp
        show ?thesis
        proof (cases "ws ! i \<le> charsWidth nts (row ! i)")
          case True
          then show ?thesis using v old r by (auto simp: max_def)
        next
          case False
          then show ?thesis using v old r r0 by (auto simp: max_def)
        qed
      next
        case r: False
        then have v: "ws' ! i = ws ! i" using ws'(3) i by simp
        show ?thesis using v old r r0 by auto
      qed
    next
      case False
      then have r: "i < length row" using i ws'(2) by auto
      then have v: "ws' ! i = charsWidth nts (row ! i)" using ws'(3) i False by simp
      have "\<forall>r\<in>set rws. \<not> i < length r" using short False by fastforce
      then show ?thesis using v r by auto
    qed
  qed
  from eq len ent show ?case by blast
qed

lemma computeWidths_set_cong:
  assumes "set rws = set rws'"
  shows "computeWidths nts rws = computeWidths nts rws'"
proof -
  obtain ws where ws:
    "computeWidths nts rws = map Some ws"
    "length ws = Max (insert 0 (length ` set rws))"
    "\<forall>i<length ws. (\<forall>r\<in>set rws. i < length r \<longrightarrow> charsWidth nts (r ! i) \<le> ws ! i)
                       \<and> (\<exists>r\<in>set rws. i < length r \<and> ws ! i = charsWidth nts (r ! i))"
    using computeWidths_dense by blast
  obtain ws' where ws':
    "computeWidths nts rws' = map Some ws'"
    "length ws' = Max (insert 0 (length ` set rws'))"
    "\<forall>i<length ws'. (\<forall>r\<in>set rws'. i < length r \<longrightarrow> charsWidth nts (r ! i) \<le> ws' ! i)
                       \<and> (\<exists>r\<in>set rws'. i < length r \<and> ws' ! i = charsWidth nts (r ! i))"
    using computeWidths_dense by blast
  have len: "length ws = length ws'" using ws(2) ws'(2) assms by simp
  have "ws = ws'"
  proof (rule nth_equalityI [OF len])
    fix i assume i: "i < length ws"
    then have i': "i < length ws'" using len by simp
    from ws(3) i obtain r where r: "r \<in> set rws" "i < length r" "ws ! i = charsWidth nts (r ! i)" by blast
    from ws'(3) i' obtain r' where r': "r' \<in> set rws'" "i < length r'" "ws' ! i = charsWidth nts (r' ! i)" by blast
    have "ws ! i \<le> ws' ! i" using r ws'(3) i' assms by auto
    moreover have "ws' ! i \<le> ws ! i" using r' ws(3) i assms by auto
    ultimately show "ws ! i = ws' ! i" by simp
  qed
  then show ?thesis using ws(1) ws'(1) by simp
qed

lemma computeWidths_long_rows_only:
  assumes "i < length (computeWidths nts rws)"
  shows "computeWidths nts (filter (\<lambda>r. i < length r) rws) ! i = computeWidths nts rws ! i"
proof -
  let ?rws' = "filter (\<lambda>r. i < length r) rws"
  obtain ws where ws:
    "computeWidths nts rws = map Some ws"
    "\<forall>i<length ws. (\<forall>r\<in>set rws. i < length r \<longrightarrow> charsWidth nts (r ! i) \<le> ws ! i)
                       \<and> (\<exists>r\<in>set rws. i < length r \<and> ws ! i = charsWidth nts (r ! i))"
    using computeWidths_dense by blast
  obtain ws' where ws':
    "computeWidths nts ?rws' = map Some ws'"
    "length ws' = Max (insert 0 (length ` set ?rws'))"
    "\<forall>i<length ws'. (\<forall>r\<in>set ?rws'. i < length r \<longrightarrow> charsWidth nts (r ! i) \<le> ws' ! i)
                       \<and> (\<exists>r\<in>set ?rws'. i < length r \<and> ws' ! i = charsWidth nts (r ! i))"
    using computeWidths_dense by blast
  have i: "i < length ws" using assms ws(1) by simp
  with ws(2) obtain r where r: "r \<in> set rws" "i < length r" "ws ! i = charsWidth nts (r ! i)" by blast
  then have r_in: "r \<in> set ?rws'" by simp
  have "length r \<le> Max (insert 0 (length ` set ?rws'))"
    using r_in by (intro Max_ge) auto
  then have i': "i < length ws'" using ws'(2) r(2) by simp
  with ws'(3) obtain r' where r': "r' \<in> set ?rws'" "i < length r'" "ws' ! i = charsWidth nts (r' ! i)" by blast
  have "ws ! i \<le> ws' ! i" using r r_in ws'(3) i' by auto
  moreover have "ws' ! i \<le> ws ! i" using r' ws(2) i by auto
  ultimately show ?thesis using ws(1) ws'(1) i i' by simp
qed

text \<open>The widths of the two sample tables.\<close>

lemma computeWidths_sampleRows: "computeWidths nts sampleRows = [Some 20, Some 30]"
  by (simp add: sampleRows_def computeWidths_def scanRow_def widen_def js_get_def js_set_def
      charsWidth_def ascii_def)

lemma computeWidths_raggedRows: "computeWidths (\<lambda>s. s) raggedRows = [Some 30, Some 70, Some 50]"
  by (simp add: raggedRows_def computeWidths_def scanRow_def widen_def js_get_def js_set_def
      charsWidth_def ascii_def)

text \<open>
  C1: for every list of rows, \<open>computeWidths\<close> returns an array whose length is the length
  of the longest row (0 when there is no row), and the entry at each column index \<open>i\<close> is
  a number that is at least 10 + 10 times the maximum length of the stringified cells at
  index \<open>i\<close>, the maximum being taken over the rows that have a cell at index \<open>i\<close>;
  shorter rows do not affect the column: without them the entry is the same.
\<close>

theorem computeWidths_columns:
  "length (computeWidths nts rws) = Max (insert 0 (length ` set rws)) \<and>
   (\<forall>i<length (computeWidths nts rws). \<exists>w. computeWidths nts rws ! i = Some w \<and>
      10 + 10 * Max (set (map (\<lambda>r. length (toString nts (r ! i))) (filter (\<lambda>r. i < length r) rws))) \<le> w \<and>
      computeWidths nts (filter (\<lambda>r. i < length r) rws) ! i = Some w)"
proof -
  obtain ws where ws:
    "computeWidths nts rws = map Some ws"
    "length ws = Max (insert 0 (length ` set rws))"
    "\<forall>i<length ws. (\<forall>r\<in>set rws. i < length r \<longrightarrow> charsWidth nts (r ! i) \<le> ws ! i)
                       \<and> (\<exists>r\<in>set rws. i < length r \<and> ws ! i = charsWidth nts (r ! i))"
    using computeWidths_dense by blast
  have "\<exists>w. computeWidths nts rws ! i = Some w \<and>
      10 + 10 * Max (set (map (\<lambda>r. length (toString nts (r ! i))) (filter (\<lambda>r. i < length r) rws))) \<le> w \<and>
      computeWidths nts (filter (\<lambda>r. i < length r) rws) ! i = Some w"
    if i: "i < length (computeWidths nts rws)" for i
  proof -
    let ?S = "set (map (\<lambda>r. length (toString nts (r ! i))) (filter (\<lambda>r. i < length r) rws))"
    have i': "i < length ws" using i ws(1) by simp
    from ws(3) i' obtain r where r: "r \<in> set rws" "i < length r" "ws ! i = charsWidth nts (r ! i)" by blast
    have ne: "?S \<noteq> {}" using r by auto
    have "Max ?S \<in> ?S" using ne by (intro Max_in) auto
    then obtain r' where r': "r' \<in> set rws" "i < length r'" "Max ?S = length (toString nts (r' ! i))" by auto
    then have "charsWidth nts (r' ! i) \<le> ws ! i" using ws(3) i' by blast
    then have "10 + 10 * Max ?S \<le> ws ! i" using r'(3) by (simp add: charsWidth_def)
    then show ?thesis using ws(1) i' computeWidths_long_rows_only [OF i] by simp
  qed
  then show ?thesis using ws(1,2) by simp
qed

theorem computeWidths_columns_witness:
  "length (computeWidths (\<lambda>s. s) raggedRows) = 3 \<and>
   (\<exists>w. computeWidths (\<lambda>s. s) raggedRows ! 1 = Some w \<and> 10 + 10 * 6 \<le> w)"
proof -
  note t = computeWidths_columns [of "\<lambda>s. s" raggedRows]
  have len: "length (computeWidths (\<lambda>s. s) raggedRows) = 3"
    using t by (simp add: raggedRows_def)
  then have "1 < length (computeWidths (\<lambda>s. s) raggedRows)" by simp
  with t have "\<exists>w. computeWidths (\<lambda>s. s) raggedRows ! 1 = Some w \<and>
      10 + 10 * Max (set (map (\<lambda>r. length (toString (\<lambda>s. s) (r ! 1)))
                           (filter (\<lambda>r. 1 < length r) raggedRows))) \<le> w \<and>
      computeWidths (\<lambda>s. s) (filter (\<lambda>r. 1 < length r) raggedRows) ! 1 = Some w"
    by blast
  then obtain w where w: "computeWidths (\<lambda>s. s) raggedRows ! 1 = Some w"
    "10 + 10 * Max (set (map (\<lambda>r. length (toString (\<lambda>s. s) (r ! 1)))
                           (filter (\<lambda>r. 1 < length r) raggedRows))) \<le> w"
    by blast
  have "10 + 10 * 6 \<le> w" using w(2) by (simp add: raggedRows_def ascii_def)
  then show ?thesis using len w(1) by simp
qed

text \<open>
  C9: \<open>computeWidths\<close> is invariant under permutation of its input rows: a list of rows
  and any reordering of it give the same array of widths.
\<close>

theorem computeWidths_permutation:
  assumes "mset rws = mset rws'"
  shows "computeWidths nts rws = computeWidths nts rws'"
  using assms by (intro computeWidths_set_cong mset_eq_setD)

theorem computeWidths_permutation_witness:
  "mset raggedRows = mset (rev raggedRows) \<and>
   computeWidths (\<lambda>s. s) raggedRows = computeWidths (\<lambda>s. s) (rev raggedRows)"
proof -
  have p: "mset raggedRows = mset (rev raggedRows)" by simp
  show ?thesis using p computeWidths_permutation [OF p, of "\<lambda>s. s"] by simp
qed

section \<open>Properties of the auth gate, of fetchTable and of the rendering\<close>

lemmas setter_defs = emit_def setAuthenticated_def setTableData_def setLoading_def

lemmas auth_defs = tryToAuthenticate_def isBiometryAvailable_def promptBiometry_def Let_def

lemma fetchTable_rejected:
  assumes "authenticated s \<noteq> AUTHENTICATED" "authenticated s \<noteq> NOT_SUPPORTED"
  shows "fetchTable e s = emit authErrorAlert s"
  using assms by (simp add: fetchTable_def)

lemma emitted_emit: "emitted s (emit ev s) = [ev]"
  by (simp add: emitted_def emit_def)

lemma renderTables_single:
  "renderTables [(sheetName, sd)] = None \<longleftrightarrow> rows sd = []"
  by (simp add: renderTables_def renderSheet_def split: list.splits)

lemma processSheets_frame:
  "authenticated (snd (processSheets e shs s)) = authenticated s \<and>
   loading (snd (processSheets e shs s)) = loading s"
  by (induction e shs s rule: processSheets.induct)
     (auto simp: setter_defs Let_def split: sum.splits option.splits)

lemma processSheets_trace:
  "\<exists>evs. trace (snd (processSheets e shs s)) = trace s @ evs \<and>
         (\<forall>ev\<in>set evs. \<exists>td. ev = SetTableData td \<and> length td = 1) \<and>
         tableData (snd (processSheets e shs s)) = tableDataAfter (tableData s) evs"
proof (induction e shs s rule: processSheets.induct)
  case (1 e s)
  then show ?case by simp
next
  case (2 e sheetName ws rest s)
  show ?case
  proof (cases "sheet_to_json ws")
    case (Inl err)
    then show ?thesis by simp
  next
    case (Inr rws)
    let ?td = "[(sheetName, \<lparr>widthArr = computeWidths (numberToString e) rws, rows = rws\<rparr>)]"
    let ?s1 = "setTableData ?td s"
    have t1: "trace ?s1 = trace s @ [SetTableData ?td]" and d1: "tableData ?s1 = ?td"
      by (simp_all add: setter_defs)
    show ?thesis
    proof (cases "renderTables (tableData ?s1)")
      case None
      then have "processSheets e ((sheetName, ws) # rest) s = (Some (typeError e), ?s1)"
        using Inr by (simp add: Let_def)
      moreover have "trace ?s1 = trace s @ [SetTableData ?td] \<and>
          (\<forall>ev\<in>set [SetTableData ?td]. \<exists>td. ev = SetTableData td \<and> length td = 1) \<and>
          tableData ?s1 = tableDataAfter (tableData s) [SetTableData ?td]"
        using t1 d1 by simp
      ultimately show ?thesis by (metis snd_conv)
    next
      case (Some view)
      from 2 [OF Inr refl Some] obtain evs where evs:
        "trace (snd (processSheets e rest ?s1)) = trace ?s1 @ evs"
        "\<forall>ev\<in>set evs. \<exists>td. ev = SetTableData td \<and> length td = 1"
        "tableData (snd (processSheets e rest ?s1)) = tableDataAfter (tableData ?s1) evs" by blast
      have p: "processSheets e ((sheetName, ws) # rest) s = processSheets e rest ?s1"
        using Inr Some by (simp add: Let_def)
      have "trace (snd (processSheets e ((sheetName, ws) # rest) s)) = trace s @ (SetTableData ?td # evs)"
        unfolding p using evs(1) t1 by simp
      moreover have "\<forall>ev\<in>set (SetTableData ?td # evs). \<exists>td. ev = SetTableData td \<and> length td = 1"
        using evs(2) by simp
      moreover have "tableData (snd (processSheets e ((sheetName, ws) # rest) s)) =
          tableDataAfter (tableData s) (SetTableData ?td # evs)"
        unfolding p using evs(3) d1 by simp
      ultimately show ?thesis by blast
    qed
  qed
qed

text \<open>
  The loop completes, that is nothing is thrown in it, exactly when every sheet is
  converted and has a row at index 0.
\<close>

lemma processSheets_completes_iff:
  "fst (processSheets e shs s) = None \<longleftrightarrow>
     (\<forall>sh\<in>set shs. \<exists>rws. sheet_to_json (snd sh) = Inr rws \<and> rws \<noteq> [])"
proof (induction e shs s rule: processSheets.induct)
  case (1 e s)
  then show ?case by simp
next
  case (2 e sheetName ws rest s)
  show ?case
  proof (cases "sheet_to_json ws")
    case (Inl err)
    then show ?thesis by simp
  next
    case (Inr rws)
    let ?s1 = "setTableData
        [(sheetName, \<lparr>widthArr = computeWidths (numberToString e) rws, rows = rws\<rparr>)] s"
    have d1: "tableData ?s1 = [(sheetName, \<lparr>widthArr = computeWidths (numberToString e) rws, rows = rws\<rparr>)]"
      by (simp add: setter_defs)
    show ?thesis
    proof (cases "rws = []")
      case True
      then have "renderTables (tableData ?s1) = None" unfolding d1 by (simp add: renderTables_single)
      then show ?thesis using Inr True by (simp add: Let_def)
    next
      case False
      then obtain view where v: "renderTables (tableData ?s1) = Some view"
        unfolding d1 using renderTables_single [of sheetName
            "\<lparr>widthArr = computeWidths (numberToString e) rws, rows = rws\<rparr>"]
        by (cases "renderTables [(sheetName, \<lparr>widthArr = computeWidths (numberToString e) rws, rows = rws\<rparr>)]") auto
      have "processSheets e ((sheetName, ws) # rest) s = processSheets e rest ?s1"
        using Inr v by (simp add: Let_def)
      then show ?thesis using 2 [OF Inr refl v] Inr False by simp
    qed
  qed
qed

lemma processSheets_complete:
  assumes "\<forall>sh\<in>set shs. \<exists>rws. sheet_to_json (snd sh) = Inr rws \<and> rws \<noteq> []"
  shows "fst (processSheets e shs s) = None \<and>
         (if shs = [] then tableData (snd (processSheets e shs s)) = tableData s
          else \<exists>rws. sheet_to_json (snd (last shs)) = Inr rws \<and>
                 tableData (snd (processSheets e shs s)) =
                   [(fst (last shs), \<lparr>widthArr = computeWidths (numberToString e) rws, rows = rws\<rparr>)])"
  using assms
proof (induction e shs s rule: processSheets.induct)
  case (1 e s)
  then show ?case by simp
next
  case (2 e sheetName ws rest s)
  then obtain rws where rws: "sheet_to_json ws = Inr rws" "rws \<noteq> []" by auto
  let ?td = "[(sheetName, \<lparr>widthArr = computeWidths (numberToString e) rws, rows = rws\<rparr>)]"
  let ?s1 = "setTableData ?td s"
  have d1: "tableData ?s1 = ?td" by (simp add: setter_defs)
  obtain view where v: "renderTables (tableData ?s1) = Some view"
    unfolding d1 using rws(2) renderTables_single [of sheetName
        "\<lparr>widthArr = computeWidths (numberToString e) rws, rows = rws\<rparr>"]
    by (cases "renderTables ?td") auto
  have p: "processSheets e ((sheetName, ws) # rest) s = processSheets e rest ?s1"
    using rws(1) v by (simp add: Let_def)
  from 2 have rest: "\<forall>sh\<in>set rest. \<exists>rws. sheet_to_json (snd sh) = Inr rws \<and> rws \<noteq> []" by simp
  note ih = 2(1) [OF rws(1) refl v rest]
  show ?case
  proof (cases "rest = []")
    case True
    then show ?thesis unfolding p using rws(1) d1 by simp
  next
    case False
    then show ?thesis unfolding p using ih by simp
  qed
qed

lemma tableDataAfter_append:
  "tableDataAfter td (xs @ ys) = tableDataAfter (tableDataAfter td xs) ys"
  by (induction td xs rule: tableDataAfter.induct) simp_all

lemma tableDataAfter_bounded:
  assumes "length td \<le> 1" and "\<forall>td'. SetTableData td' \<in> set evs \<longrightarrow> length td' \<le> 1"
  shows "length (tableDataAfter td evs) \<le> 1"
  using assms by (induction td evs rule: tableDataAfter.induct) simp_all

lemma fetchBody_trace:
  "\<exists>evs. trace (snd (fetchBody e s)) = trace s @ NetworkFetch (ascii ''GET'') downloadUrl # evs \<and>
         (\<forall>ev\<in>set evs. \<exists>td. ev = SetTableData td \<and> length td = 1) \<and>
         tableData (snd (fetchBody e s)) = tableDataAfter (tableData s) evs"
proof -
  let ?s1 = "emit (NetworkFetch (ascii ''GET'') downloadUrl) s"
  have t1: "trace ?s1 = trace s @ [NetworkFetch (ascii ''GET'') downloadUrl]"
    and d1: "tableData ?s1 = tableData s"
    by (simp_all add: emit_def)
  have stop: "trace ?s1 = trace s @ NetworkFetch (ascii ''GET'') downloadUrl # [] \<and>
         (\<forall>ev\<in>set []. \<exists>td. ev = SetTableData td \<and> length td = 1) \<and>
         tableData ?s1 = tableDataAfter (tableData s) []"
    using t1 d1 by simp
  show ?thesis
  proof (cases "fetch e")
    case (Inl err)
    then have "snd (fetchBody e s) = ?s1" by (simp add: fetchBody_def)
    then show ?thesis using stop by metis
  next
    case res: (Inr res)
    show ?thesis
    proof (cases "base64 res")
      case (Inl err)
      then have "snd (fetchBody e s) = ?s1" using res by (simp add: fetchBody_def)
      then show ?thesis using stop by metis
    next
      case b: (Inr b64)
      show ?thesis
      proof (cases "XLSX_read e b64")
        case (Inl err)
        then have "snd (fetchBody e s) = ?s1" using res b by (simp add: fetchBody_def)
        then show ?thesis using stop by metis
      next
        case (Inr wb)
        obtain evs where evs:
          "trace (snd (processSheets e (Sheets wb) ?s1)) = trace ?s1 @ evs"
          "\<forall>ev\<in>set evs. \<exists>td. ev = SetTableData td \<and> length td = 1"
          "tableData (snd (processSheets e (Sheets wb) ?s1)) = tableDataAfter (tableData ?s1) evs"
          using processSheets_trace by blast
        have "fetchBody e s = processSheets e (Sheets wb) ?s1"
          using res b Inr by (simp add: fetchBody_def)
        then show ?thesis using evs t1 d1 by simp
      qed
    qed
  qed
qed

lemma fetchBody_frame:
  "authenticated (snd (fetchBody e s)) = authenticated s \<and>
   loading (snd (fetchBody e s)) = loading s"
  by (simp add: fetchBody_def Let_def processSheets_frame emit_def split: sum.splits)

lemma fetchTable_accepted_append:
  assumes "authenticated s = AUTHENTICATED \<or> authenticated s = NOT_SUPPORTED"
  shows "\<exists>evs. trace (fetchTable e s) =
            trace s @ SetLoading True # SetTableData [] # NetworkFetch (ascii ''GET'') downloadUrl # evs \<and>
            (\<forall>ev\<in>set evs. \<forall>td. ev = SetTableData td \<longrightarrow> length td = 1) \<and>
            tableData (fetchTable e s) = tableDataAfter [] evs"
proof -
  let ?s2 = "setTableData [] (setLoading True s)"
  have t2: "trace ?s2 = trace s @ [SetLoading True, SetTableData []]"
    and d2: "tableData ?s2 = []"
    by (simp_all add: setter_defs)
  obtain evs where evs:
    "trace (snd (fetchBody e ?s2)) = trace ?s2 @ NetworkFetch (ascii ''GET'') downloadUrl # evs"
    "\<forall>ev\<in>set evs. \<exists>td. ev = SetTableData td \<and> length td = 1"
    "tableData (snd (fetchBody e ?s2)) = tableDataAfter (tableData ?s2) evs"
    using fetchBody_trace by blast
  obtain thrown s3 where b: "fetchBody e ?s2 = (thrown, s3)" by (cases "fetchBody e ?s2")
  have t3: "trace s3 = trace s @ SetLoading True # SetTableData [] # NetworkFetch (ascii ''GET'') downloadUrl # evs"
    using evs(1) t2 b by simp
  have d3: "tableData s3 = tableDataAfter [] evs"
    using evs(3) d2 b by simp
  show ?thesis
  proof (cases thrown)
    case None
    then have "trace (fetchTable e s) =
        trace s @ SetLoading True # SetTableData [] # NetworkFetch (ascii ''GET'') downloadUrl # (evs @ [SetLoading False])"
      and "tableData (fetchTable e s) = tableData s3"
      using assms b t3 by (auto simp: fetchTable_def setter_defs)
    moreover have "\<forall>ev\<in>set (evs @ [SetLoading False]). \<forall>td. ev = SetTableData td \<longrightarrow> length td = 1"
      using evs(2) by auto
    moreover have "tableDataAfter [] (evs @ [SetLoading False]) = tableDataAfter [] evs"
      by (simp add: tableDataAfter_append)
    ultimately show ?thesis using d3 by metis
  next
    case (Some err)
    let ?tail = "[ConsoleError err, Alert loadErrorTitle (ascii ''Chyba: '' @ err_text err), SetLoading False]"
    from Some have "trace (fetchTable e s) =
        trace s @ SetLoading True # SetTableData [] # NetworkFetch (ascii ''GET'') downloadUrl # (evs @ ?tail)"
      and "tableData (fetchTable e s) = tableData s3"
      using assms b t3 by (auto simp: fetchTable_def setter_defs)
    moreover have "\<forall>ev\<in>set (evs @ ?tail). \<forall>td. ev = SetTableData td \<longrightarrow> length td = 1"
      using evs(2) by auto
    moreover have "tableDataAfter [] (evs @ ?tail) = tableDataAfter [] evs"
      by (simp add: tableDataAfter_append)
    ultimately show ?thesis using d3 by metis
  qed
qed

lemma fetchTable_accepted_trace:
  assumes "authenticated s = AUTHENTICATED \<or> authenticated s = NOT_SUPPORTED"
  shows "\<exists>evs. emitted s (fetchTable e s) =
            SetLoading True # SetTableData [] # NetworkFetch (ascii ''GET'') downloadUrl # evs \<and>
            (\<forall>ev\<in>set evs. \<forall>td. ev = SetTableData td \<longrightarrow> length td = 1)"
  using fetchTable_accepted_append [OF assms, of e] by (auto simp: emitted_def)

text \<open>Runs only add to the record of events, so \<open>emitted\<close> is all that a run has added.\<close>

lemma fetchTable_trace: "trace (fetchTable e s) = trace s @ emitted s (fetchTable e s)"
proof (cases "authenticated s = AUTHENTICATED \<or> authenticated s = NOT_SUPPORTED")
  case True
  then show ?thesis using fetchTable_accepted_append [OF True, of e] by (auto simp: emitted_def)
next
  case False
  then show ?thesis by (simp add: fetchTable_rejected emitted_def emit_def)
qed

lemma tryToAuthenticate_trace:
  "trace (tryToAuthenticate e s) = trace s @ emitted s (tryToAuthenticate e s)"
  by (auto simp: auth_defs setter_defs emitted_def split: sum.splits bool.splits)

lemma fetchTable_updates_bounded:
  "\<forall>td. SetTableData td \<in> set (emitted s (fetchTable e s)) \<longrightarrow> length td \<le> 1"
proof (cases "authenticated s = AUTHENTICATED \<or> authenticated s = NOT_SUPPORTED")
  case True
  from fetchTable_accepted_trace [OF True, of e] obtain evs where
    "emitted s (fetchTable e s) =
       SetLoading True # SetTableData [] # NetworkFetch (ascii ''GET'') downloadUrl # evs"
    "\<forall>ev\<in>set evs. \<forall>td. ev = SetTableData td \<longrightarrow> length td = 1" by blast
  then show ?thesis by auto
next
  case False
  then have "fetchTable e s = emit authErrorAlert s" by (simp add: fetchTable_rejected)
  then show ?thesis by (simp add: emitted_emit authErrorAlert_def)
qed

text \<open>
  The state that a run leaves holds the \<open>tableData\<close> that its events give, so the values
  of \<open>tableData\<close> during the run are those after the initial parts of its events.
\<close>

lemma fetchTable_replay:
  "tableData (fetchTable e s) = tableDataAfter (tableData s) (emitted s (fetchTable e s))"
proof (cases "authenticated s = AUTHENTICATED \<or> authenticated s = NOT_SUPPORTED")
  case True
  from fetchTable_accepted_append [OF True, of e] obtain evs where evs:
    "trace (fetchTable e s) =
       trace s @ SetLoading True # SetTableData [] # NetworkFetch (ascii ''GET'') downloadUrl # evs"
    "tableData (fetchTable e s) = tableDataAfter [] evs" by blast
  from evs(1) have "emitted s (fetchTable e s) =
      SetLoading True # SetTableData [] # NetworkFetch (ascii ''GET'') downloadUrl # evs"
    by (simp add: emitted_def)
  then show ?thesis using evs(2) by simp
next
  case False
  then have "fetchTable e s = emit authErrorAlert s" by (simp add: fetchTable_rejected)
  then show ?thesis by (simp add: emitted_emit authErrorAlert_def) (simp add: emit_def)
qed

lemma fetchTable_at_no_point:
  assumes "length (tableData s) \<le> 1"
  shows "length (tableDataAfter (tableData s) (take n (emitted s (fetchTable e s)))) \<le> 1"
proof (rule tableDataAfter_bounded [OF assms])
  show "\<forall>td'. SetTableData td' \<in> set (take n (emitted s (fetchTable e s))) \<longrightarrow> length td' \<le> 1"
    using fetchTable_updates_bounded [of s e] by (auto dest: in_set_takeD)
qed

lemma fetchTable_invariant:
  assumes "length (tableData s) \<le> 1"
  shows "length (tableData (fetchTable e s)) \<le> 1"
  using fetchTable_at_no_point [OF assms, of "length (emitted s (fetchTable e s))" e]
  by (simp add: fetchTable_replay [symmetric])

lemma tryToAuthenticate_tableData:
  "tableData (tryToAuthenticate e s) = tableData s"
  by (auto simp: auth_defs setter_defs split: sum.splits bool.splits)

text \<open>Every state between runs holds at most one sheet.\<close>

lemma reachable_at_most_one_sheet: "reachable s \<Longrightarrow> length (tableData s) \<le> 1"
proof (induction rule: reachable.induct)
  case reachable_initial
  then show ?case by (simp add: initialState_def)
next
  case (reachable_auth s e)
  then show ?case by (simp add: tryToAuthenticate_tableData)
next
  case (reachable_fetch s e)
  from reachable_fetch.IH show ?case by (rule fetchTable_invariant)
qed

lemma fetchTable_complete:
  assumes "authenticated s = AUTHENTICATED \<or> authenticated s = NOT_SUPPORTED"
    and "fetch e = Inr res" and "base64 res = Inr b64" and "XLSX_read e b64 = Inr wb"
    and "\<forall>sh\<in>set (Sheets wb). \<exists>rws. sheet_to_json (snd sh) = Inr rws \<and> rws \<noteq> []"
  shows "if Sheets wb = [] then tableData (fetchTable e s) = []
         else \<exists>rws. sheet_to_json (snd (last (Sheets wb))) = Inr rws \<and>
                tableData (fetchTable e s) =
                  [(fst (last (Sheets wb)),
                    \<lparr>widthArr = computeWidths (numberToString e) rws, rows = rws\<rparr>)]"
proof -
  let ?s1 = "emit (NetworkFetch (ascii ''GET'') downloadUrl) (setTableData [] (setLoading True s))"
  let ?p = "processSheets e (Sheets wb) ?s1"
  have body: "fetchBody e (setTableData [] (setLoading True s)) = ?p"
    using assms(2-4) by (simp add: fetchBody_def)
  note c = processSheets_complete [OF assms(5), of e ?s1]
  obtain s3 where s3: "?p = (None, s3)" using c by (cases ?p) auto
  have ft: "fetchTable e s = setLoading False s3"
    using assms(1) body s3 by (auto simp: fetchTable_def)
  have td: "tableData (fetchTable e s) = tableData (snd ?p)"
    unfolding ft s3 by (simp add: setter_defs)
  have "tableData ?s1 = []" by (simp add: setter_defs)
  then show ?thesis using c td by (auto split: if_splits)
qed

lemma renderCells_children: "map td_children (renderCells w row) = row"
  by (simp add: renderCells_def case_prod_beta comp_def)

text \<open>The table that a fetch of the sample workbook leaves.\<close>

lemma fetchTable_sampleEnv:
  "tableData (fetchTable sampleEnv authenticatedState) =
     [(ascii ''Sheet2'', \<lparr>widthArr = [Some 30, Some 70, Some 50], rows = raggedRows\<rparr>)]"
proof -
  let ?wb = "Workbook [(ascii ''Sheet1'', WorkSheet (Inr sampleRows)),
                       (ascii ''Sheet2'', WorkSheet (Inr raggedRows))]"
  have c: "\<forall>sh\<in>set (Sheets ?wb). \<exists>rws. sheet_to_json (snd sh) = Inr rws \<and> rws \<noteq> []"
    by (simp add: sampleRows_def raggedRows_def)
  have g: "authenticated authenticatedState = AUTHENTICATED \<or> authenticated authenticatedState = NOT_SUPPORTED"
    by (simp add: authenticatedState_def initialState_def)
  have f: "fetch sampleEnv = Inr (Response (Inr (ascii ''UEsDBBQABgAIAAAAIQ=='')))"
    and b: "base64 (Response (Inr (ascii ''UEsDBBQABgAIAAAAIQ==''))) = Inr (ascii ''UEsDBBQABgAIAAAAIQ=='')"
    and r: "XLSX_read sampleEnv (ascii ''UEsDBBQABgAIAAAAIQ=='') = Inr ?wb"
    and n: "numberToString sampleEnv = (\<lambda>s. s)"
    by (simp_all add: sampleEnv_def)
  show ?thesis
    using fetchTable_complete [OF g f b r c] by (simp add: n computeWidths_raggedRows)
qed

text \<open>
  A workbook whose first sheet has no row: the rendering of that sheet throws, the second
  sheet is never set, and the run ends with the alert of the \<open>catch\<close> block.
\<close>

lemma fetchTable_empty_first_sheet:
  "emitted authenticatedState
     (fetchTable (sampleEnv\<lparr>XLSX_read := (\<lambda>b64. Inr (Workbook
          [(ascii ''Empty'', WorkSheet (Inr [])), (ascii ''Data'', WorkSheet (Inr sampleRows))]))\<rparr>)
        authenticatedState) =
     [SetLoading True, SetTableData [], NetworkFetch (ascii ''GET'') downloadUrl,
      SetTableData [(ascii ''Empty'', \<lparr>widthArr = [], rows = []\<rparr>)],
      ConsoleError (typeError sampleEnv),
      Alert loadErrorTitle (ascii ''Chyba: '' @ err_text (typeError sampleEnv)),
      SetLoading False]"
  by (simp add: fetchTable_def fetchBody_def emitted_def setter_defs sampleEnv_def
      authenticatedState_def initialState_def computeWidths_def renderTables_def renderSheet_def)

text \<open>
  C4: in every run of \<open>tryToAuthenticate\<close> in which the check of the sensor gives
  false, or fails, the auth state becomes \<open>NOT_SUPPORTED\<close> and the biometric prompt is
  never invoked, whatever the prompt would have returned.
\<close>

theorem tryToAuthenticate_sensor_unavailable:
  assumes "(\<exists>err. isSensorAvailable e = Inl err) \<or> (\<exists>bt. isSensorAvailable e = Inr (SensorResult bt False))"
  shows "authenticated (tryToAuthenticate e s) = NOT_SUPPORTED \<and>
         \<not> list_ex is_prompt (emitted s (tryToAuthenticate e s)) \<and>
         (\<forall>p. tryToAuthenticate (e\<lparr>simplePrompt := p\<rparr>) s = tryToAuthenticate e s)"
  using assms by (auto simp: auth_defs setter_defs emitted_def)

theorem tryToAuthenticate_sensor_unavailable_witness:
  "isSensorAvailable (sampleEnv\<lparr>isSensorAvailable := Inr (SensorResult None False)\<rparr>) = Inr (SensorResult None False) \<and>
   authenticated (tryToAuthenticate (sampleEnv\<lparr>isSensorAvailable := Inr (SensorResult None False)\<rparr>) initialState) = NOT_SUPPORTED"
proof -
  have h: "(\<exists>err. isSensorAvailable (sampleEnv\<lparr>isSensorAvailable := Inr (SensorResult None False)\<rparr>) = Inl err) \<or>
     (\<exists>bt. isSensorAvailable (sampleEnv\<lparr>isSensorAvailable := Inr (SensorResult None False)\<rparr>) = Inr (SensorResult bt False))"
    by simp
  show ?thesis
    using tryToAuthenticate_sensor_unavailable [OF h, of initialState] by simp
qed

text \<open>
  C5: in every run of \<open>tryToAuthenticate\<close> in which the sensor is available, the
  biometric prompt is invoked, and the auth state becomes \<open>AUTHENTICATED\<close> when the
  prompt returns success, \<open>UNAUTHENTICATED\<close> when it returns failure or when the call
  of the prompt fails.
\<close>

theorem tryToAuthenticate_sensor_available:
  assumes "isSensorAvailable e = Inr (SensorResult bt True)"
  shows "list_ex is_prompt (emitted s (tryToAuthenticate e s)) \<and>
         authenticated (tryToAuthenticate e s) =
           (case simplePrompt e of
              Inr True \<Rightarrow> AUTHENTICATED
            | Inr False \<Rightarrow> UNAUTHENTICATED
            | Inl err \<Rightarrow> UNAUTHENTICATED)"
  using assms by (auto simp: auth_defs setter_defs emitted_def split: sum.splits bool.splits)

theorem tryToAuthenticate_sensor_available_witness:
  "isSensorAvailable sampleEnv = Inr (SensorResult (Some TouchID) True) \<and>
   authenticated (tryToAuthenticate sampleEnv initialState) = AUTHENTICATED \<and>
   authenticated (tryToAuthenticate (sampleEnv\<lparr>simplePrompt := Inr False\<rparr>) initialState) = UNAUTHENTICATED"
proof -
  have h: "isSensorAvailable sampleEnv = Inr (SensorResult (Some TouchID) True)"
    by (simp add: sampleEnv_def)
  have h': "isSensorAvailable (sampleEnv\<lparr>simplePrompt := Inr False\<rparr>) = Inr (SensorResult (Some TouchID) True)"
    by (simp add: sampleEnv_def)
  show ?thesis
    using h tryToAuthenticate_sensor_available [OF h, of initialState]
      tryToAuthenticate_sensor_available [OF h', of initialState]
    by (simp add: sampleEnv_def)
qed

text \<open>
  C8: when the underlying biometric call fails, \<open>isBiometryAvailable\<close> and
  \<open>promptBiometry\<close> catch the error, log it as a warning and return false; and no run
  of the two or of \<open>tryToAuthenticate\<close> ever shows an alert.
\<close>

theorem biometric_failures_downgraded:
  "(\<forall>err. isSensorAvailable e = Inl err \<longrightarrow>
      isBiometryAvailable e s =
        (False, emit (ConsoleWarn (ascii ''Biometry check failed: '') err) (emit SensorQuery s))) \<and>
   (\<forall>err. simplePrompt e = Inl err \<longrightarrow>
      promptBiometry e s =
        (False, emit (ConsoleWarn (ascii ''Biometry prompt failed: '') err)
                  (emit (BiometricPrompt (ascii ''Confirm fingerprint'')) s))) \<and>
   \<not> list_ex is_alert (emitted s (snd (isBiometryAvailable e s))) \<and>
   \<not> list_ex is_alert (emitted s (snd (promptBiometry e s))) \<and>
   \<not> list_ex is_alert (emitted s (tryToAuthenticate e s))"
proof (intro conjI allI impI)
  fix err assume "isSensorAvailable e = Inl err"
  then show "isBiometryAvailable e s =
        (False, emit (ConsoleWarn (ascii ''Biometry check failed: '') err) (emit SensorQuery s))"
    by (simp add: isBiometryAvailable_def)
next
  fix err assume "simplePrompt e = Inl err"
  then show "promptBiometry e s =
        (False, emit (ConsoleWarn (ascii ''Biometry prompt failed: '') err)
                  (emit (BiometricPrompt (ascii ''Confirm fingerprint'')) s))"
    by (simp add: promptBiometry_def)
next
  show "\<not> list_ex is_alert (emitted s (snd (isBiometryAvailable e s)))"
    by (simp add: isBiometryAvailable_def Let_def emit_def emitted_def split: sum.splits)
next
  show "\<not> list_ex is_alert (emitted s (snd (promptBiometry e s)))"
    by (simp add: promptBiometry_def Let_def emit_def emitted_def split: sum.splits)
next
  show "\<not> list_ex is_alert (emitted s (tryToAuthenticate e s))"
    by (auto simp: auth_defs setter_defs emitted_def split: sum.splits bool.splits)
qed

theorem biometric_failures_downgraded_witness:
  "isSensorAvailable (sampleEnv\<lparr>isSensorAvailable := Inl (JsError (ascii ''no sensor'')),
                               simplePrompt := Inl (JsError (ascii ''cancelled''))\<rparr>)
     = Inl (JsError (ascii ''no sensor'')) \<and>
   simplePrompt (sampleEnv\<lparr>isSensorAvailable := Inl (JsError (ascii ''no sensor'')),
                          simplePrompt := Inl (JsError (ascii ''cancelled''))\<rparr>)
     = Inl (JsError (ascii ''cancelled'')) \<and>
   fst (isBiometryAvailable
          (sampleEnv\<lparr>isSensorAvailable := Inl (JsError (ascii ''no sensor'')),
                     simplePrompt := Inl (JsError (ascii ''cancelled''))\<rparr>) initialState) = False \<and>
   fst (promptBiometry
          (sampleEnv\<lparr>isSensorAvailable := Inl (JsError (ascii ''no sensor'')),
                     simplePrompt := Inl (JsError (ascii ''cancelled''))\<rparr>) initialState) = False"
  using biometric_failures_downgraded
    [of "sampleEnv\<lparr>isSensorAvailable := Inl (JsError (ascii ''no sensor'')),
                    simplePrompt := Inl (JsError (ascii ''cancelled''))\<rparr>" initialState]
  by simp

text \<open>
  C3: every call of \<open>fetchTable\<close> while the auth state is \<open>PENDING\<close> or
  \<open>UNAUTHENTICATED\<close> shows the alert "Auth error" and does nothing else, so it returns
  before any network request; and a call makes no network request if and only if the
  state is neither \<open>AUTHENTICATED\<close> nor \<open>NOT_SUPPORTED\<close>.
\<close>

theorem fetchTable_auth_guard:
  "(authenticated s = PENDING \<or> authenticated s = UNAUTHENTICATED \<longrightarrow>
      emitted s (fetchTable e s) = [Alert (ascii ''Auth error'') (ascii ''Seems like you are not authenticated!'')]) \<and>
   (\<not> list_ex is_fetch (emitted s (fetchTable e s)) \<longleftrightarrow>
      authenticated s \<noteq> AUTHENTICATED \<and> authenticated s \<noteq> NOT_SUPPORTED)"
proof -
  have rej: "emitted s (fetchTable e s) = [Alert (ascii ''Auth error'') (ascii ''Seems like you are not authenticated!'')]"
    if "authenticated s \<noteq> AUTHENTICATED" "authenticated s \<noteq> NOT_SUPPORTED"
    using fetchTable_rejected [OF that] by (simp add: emitted_emit authErrorAlert_def)
  have acc: "list_ex is_fetch (emitted s (fetchTable e s))"
    if "authenticated s = AUTHENTICATED \<or> authenticated s = NOT_SUPPORTED"
    using fetchTable_accepted_trace [OF that, of e] by auto
  show ?thesis using rej acc by (cases "authenticated s") auto
qed

theorem fetchTable_auth_guard_witness:
  "authenticated (initialState :: js_string app_state) = PENDING \<and>
   emitted initialState (fetchTable sampleEnv initialState) =
     [Alert (ascii ''Auth error'') (ascii ''Seems like you are not authenticated!'')] \<and>
   \<not> list_ex is_fetch (emitted initialState (fetchTable sampleEnv initialState))"
proof -
  have h: "authenticated (initialState :: js_string app_state) = PENDING"
    by (simp add: initialState_def)
  show ?thesis using h fetchTable_auth_guard [of initialState sampleEnv] by simp
qed

text \<open>
  C10: a call of \<open>fetchTable\<close> that the auth guard rejects changes no state:
  \<open>loading\<close>, \<open>tableData\<close> and the auth state are what they were, and no state setter
  is called.
\<close>

theorem fetchTable_rejected_frame:
  assumes "authenticated s \<noteq> AUTHENTICATED" "authenticated s \<noteq> NOT_SUPPORTED"
  shows "loading (fetchTable e s) = loading s \<and> tableData (fetchTable e s) = tableData s \<and>
         authenticated (fetchTable e s) = authenticated s \<and>
         \<not> list_ex is_setter (emitted s (fetchTable e s))"
  using fetchTable_rejected [OF assms, of e]
  by (simp add: emitted_emit authErrorAlert_def) (simp add: emit_def)

theorem fetchTable_rejected_frame_witness:
  "authenticated (staleState :: js_string app_state) \<noteq> AUTHENTICATED \<and>
   authenticated staleState \<noteq> NOT_SUPPORTED \<and>
   loading (fetchTable sampleEnv staleState) = loading staleState \<and>
   tableData (fetchTable sampleEnv staleState) = tableData staleState"
proof -
  have h1: "authenticated staleState \<noteq> AUTHENTICATED"
    and h2: "authenticated staleState \<noteq> NOT_SUPPORTED"
    by (simp_all add: staleState_def auth_defs setter_defs sampleEnv_def)
  show ?thesis using h1 h2 fetchTable_rejected_frame [OF h1 h2, of sampleEnv] by simp
qed

text \<open>
  C6: in every run of \<open>fetchTable\<close> that passes the auth guard and whose network
  fetch fails, \<open>tableData\<close> is empty at the end (the only updates of the state are the
  clearing at the start and the two of \<open>loading\<close>) and \<open>loading\<close> is false again.
\<close>

theorem fetchTable_network_failure:
  assumes "authenticated s = AUTHENTICATED \<or> authenticated s = NOT_SUPPORTED"
    and "fetch e = Inl err"
  shows "tableData (fetchTable e s) = [] \<and> loading (fetchTable e s) = False \<and>
         filter is_setter (emitted s (fetchTable e s)) = [SetLoading True, SetTableData [], SetLoading False]"
  using assms by (auto simp: fetchTable_def fetchBody_def emitted_def setter_defs)

theorem fetchTable_network_failure_witness:
  "authenticated authenticatedState = AUTHENTICATED \<and>
   fetch (sampleEnv\<lparr>fetch := Inl (JsError (ascii ''Network request failed''))\<rparr>)
     = Inl (JsError (ascii ''Network request failed'')) \<and>
   tableData (fetchTable (sampleEnv\<lparr>fetch := Inl (JsError (ascii ''Network request failed''))\<rparr>)
                authenticatedState) = [] \<and>
   loading (fetchTable (sampleEnv\<lparr>fetch := Inl (JsError (ascii ''Network request failed''))\<rparr>)
              authenticatedState) = False"
proof -
  have g: "authenticated authenticatedState = AUTHENTICATED \<or> authenticated authenticatedState = NOT_SUPPORTED"
    by (simp add: authenticatedState_def initialState_def)
  have f: "fetch (sampleEnv\<lparr>fetch := Inl (JsError (ascii ''Network request failed''))\<rparr>)
     = Inl (JsError (ascii ''Network request failed''))" by simp
  show ?thesis
    using fetchTable_network_failure [OF g f] by (simp add: authenticatedState_def initialState_def)
qed

text \<open>
  C2: each update of \<open>tableData\<close> made in the loop of \<open>fetchTable\<close> replaces the whole
  mapping rather than merging into it.  So at no point of a run does \<open>tableData\<close> hold more
  than one sheet (a run is entered with at most one): neither at its end nor after any
  initial part of its events.  And when the loop over the sheets of the workbook
  completes, that is when every sheet is converted and rendered without a throw,
  \<open>tableData\<close> has exactly one key, the last sheet processed, if the workbook has at least
  one sheet, and is empty if the workbook has no sheet.
\<close>

theorem fetchTable_replaces_tableData:
  "(length (tableData s) \<le> 1 \<longrightarrow>
      length (tableData (fetchTable e s)) \<le> 1 \<and>
      (\<forall>n. length (tableDataAfter (tableData s) (take n (emitted s (fetchTable e s)))) \<le> 1)) \<and>
   ((authenticated s = AUTHENTICATED \<or> authenticated s = NOT_SUPPORTED) \<and>
    fetch e = Inr res \<and> base64 res = Inr b64 \<and> XLSX_read e b64 = Inr wb \<and>
    (\<forall>sh\<in>set (Sheets wb). \<exists>rws. sheet_to_json (snd sh) = Inr rws \<and> rws \<noteq> []) \<longrightarrow>
      (if Sheets wb = [] then tableData (fetchTable e s) = []
       else map fst (tableData (fetchTable e s)) = [fst (last (Sheets wb))]))"
proof (intro conjI impI allI)
  assume "length (tableData s) \<le> 1"
  then show "length (tableData (fetchTable e s)) \<le> 1"
    by (rule fetchTable_invariant)
next
  fix n
  assume "length (tableData s) \<le> 1"
  then show "length (tableDataAfter (tableData s) (take n (emitted s (fetchTable e s)))) \<le> 1"
    by (rule fetchTable_at_no_point)
next
  assume a: "(authenticated s = AUTHENTICATED \<or> authenticated s = NOT_SUPPORTED) \<and>
    fetch e = Inr res \<and> base64 res = Inr b64 \<and> XLSX_read e b64 = Inr wb \<and>
    (\<forall>sh\<in>set (Sheets wb). \<exists>rws. sheet_to_json (snd sh) = Inr rws \<and> rws \<noteq> [])"
  then have "if Sheets wb = [] then tableData (fetchTable e s) = []
         else \<exists>rws. sheet_to_json (snd (last (Sheets wb))) = Inr rws \<and>
                tableData (fetchTable e s) =
                  [(fst (last (Sheets wb)),
                    \<lparr>widthArr = computeWidths (numberToString e) rws, rows = rws\<rparr>)]"
    by (intro fetchTable_complete) auto
  then show "if Sheets wb = [] then tableData (fetchTable e s) = []
       else map fst (tableData (fetchTable e s)) = [fst (last (Sheets wb))]"
    by (auto split: if_splits)
qed

theorem fetchTable_replaces_tableData_witness:
  "length (tableData authenticatedState) \<le> 1 \<and>
   authenticated authenticatedState = AUTHENTICATED \<and>
   length (tableData (fetchTable sampleEnv authenticatedState)) \<le> 1 \<and>
   map fst (tableData (fetchTable sampleEnv authenticatedState)) = [ascii ''Sheet2'']"
proof -
  let ?wb = "Workbook [(ascii ''Sheet1'', WorkSheet (Inr sampleRows)),
                       (ascii ''Sheet2'', WorkSheet (Inr raggedRows))]"
  have g: "authenticated authenticatedState = AUTHENTICATED"
    and i: "length (tableData authenticatedState) \<le> 1"
    by (simp_all add: authenticatedState_def initialState_def)
  have h: "(authenticated authenticatedState = AUTHENTICATED \<or> authenticated authenticatedState = NOT_SUPPORTED) \<and>
    fetch sampleEnv = Inr (Response (Inr (ascii ''UEsDBBQABgAIAAAAIQ==''))) \<and>
    base64 (Response (Inr (ascii ''UEsDBBQABgAIAAAAIQ==''))) = Inr (ascii ''UEsDBBQABgAIAAAAIQ=='') \<and>
    XLSX_read sampleEnv (ascii ''UEsDBBQABgAIAAAAIQ=='') = Inr ?wb \<and>
    (\<forall>sh\<in>set (Sheets ?wb). \<exists>rws. sheet_to_json (snd sh) = Inr rws \<and> rws \<noteq> [])"
    using g by (simp add: sampleEnv_def sampleRows_def raggedRows_def)
  show ?thesis
    using g i h fetchTable_replaces_tableData [of authenticatedState sampleEnv
        "Response (Inr (ascii ''UEsDBBQABgAIAAAAIQ==''))" "ascii ''UEsDBBQABgAIAAAAIQ==''" ?wb]
    by simp
qed

text \<open>
  C2, the workbook without sheets: the loop completes without an error and \<open>tableData\<close>
  has no key, so "exactly one key whenever the loop completes" does not hold there.
\<close>

theorem fetchTable_empty_workbook_counterexample:
  "\<not> list_ex is_alert (emitted authenticatedState (fetchTable emptyWorkbookEnv authenticatedState)) \<and>
   \<not> length (tableData (fetchTable emptyWorkbookEnv authenticatedState)) = 1"
  by (simp add: fetchTable_def fetchBody_def emitted_def setter_defs emptyWorkbookEnv_def
      sampleEnv_def authenticatedState_def initialState_def)

text \<open>
  C7: when a sheet is rendered, the table of data rows holds exactly the rows whose index
  is not 0 and whose length is not 0, each with its own cells, and the header table is
  built from the row at index 0.  There is a rendering exactly when the sheet has a row
  at index 0.
\<close>

theorem renderSheet_rows:
  "(renderSheet sheetName sd = None \<longleftrightarrow> rows sd = []) \<and>
   (\<forall>v. renderSheet sheetName sd = Some v \<longrightarrow>
      map td_children (tr_children (headerTable v)) = rows sd ! 0 \<and>
      length (rowsTable v) = length (rows sd) \<and>
      (\<forall>j<length (rows sd).
         (rowsTable v ! j \<noteq> None \<longleftrightarrow> j \<noteq> 0 \<and> length (rows sd ! j) \<noteq> 0) \<and>
         (\<forall>tr. rowsTable v ! j = Some tr \<longrightarrow> map td_children (tr_children tr) = rows sd ! j)))"
proof (cases "rows sd")
  case Nil
  then show ?thesis by (simp add: renderSheet_def)
next
  case (Cons header rest)
  let ?v = "\<lparr>sheetTitle = sheetName,
             headerTable = Tr None True (Some (ascii ''#dddddd'')) (renderCells (widthArr sd) header),
             rowsTable = map (renderRow (widthArr sd)) (enumerate 0 (rows sd))\<rparr>"
  have v: "renderSheet sheetName sd = Some ?v" using Cons by (simp add: renderSheet_def)
  have h: "map td_children (tr_children (headerTable ?v)) = rows sd ! 0"
    using Cons by (simp add: renderCells_children)
  have l: "length (rowsTable ?v) = length (rows sd)" by simp
  have b: "(rowsTable ?v ! j \<noteq> None \<longleftrightarrow> j \<noteq> 0 \<and> length (rows sd ! j) \<noteq> 0) \<and>
           (\<forall>tr. rowsTable ?v ! j = Some tr \<longrightarrow> map td_children (tr_children tr) = rows sd ! j)"
    if "j < length (rows sd)" for j
    using that by (auto simp: renderRow_def nth_enumerate_eq renderCells_children split: if_splits)
  have ne: "rows sd \<noteq> []" using Cons by simp
  show ?thesis unfolding v using ne h l b by simp
qed

theorem renderSheet_rows_witness:
  "(\<exists>v. renderSheet (ascii ''Sheet2'') \<lparr>widthArr = computeWidths (\<lambda>s. s) raggedRows, rows = raggedRows\<rparr> = Some v \<and>
        map td_children (tr_children (headerTable v)) = [Str (ascii ''id''), Str (ascii ''name'')] \<and>
        rowsTable v ! 0 = None \<and> rowsTable v ! 1 = None \<and> rowsTable v ! 2 \<noteq> None)"
proof -
  let ?sd = "\<lparr>widthArr = computeWidths (\<lambda>s. s) raggedRows, rows = raggedRows\<rparr>"
  note t = renderSheet_rows [of "ascii ''Sheet2''" ?sd]
  have "rows ?sd \<noteq> []" by (simp add: raggedRows_def)
  with t obtain v where v: "renderSheet (ascii ''Sheet2'') ?sd = Some v" by auto
  with t have p:
    "map td_children (tr_children (headerTable v)) = rows ?sd ! 0"
    "\<forall>j<length (rows ?sd).
        (rowsTable v ! j \<noteq> None \<longleftrightarrow> j \<noteq> 0 \<and> length (rows ?sd ! j) \<noteq> 0) \<and>
        (\<forall>tr. rowsTable v ! j = Some tr \<longrightarrow> map td_children (tr_children tr) = rows ?sd ! j)"
    by blast+
  have l: "length (rows ?sd) = 3" by (simp add: raggedRows_def)
  have r: "rowsTable v ! j \<noteq> None \<longleftrightarrow> j \<noteq> 0 \<and> length (rows ?sd ! j) \<noteq> 0" if "j < 3" for j
    using p(2) l that by auto
  have "rowsTable v ! 0 = None" using r [of 0] by simp
  moreover have "rowsTable v ! 1 = None" using r [of 1] by (simp add: raggedRows_def)
  moreover have "rowsTable v ! 2 \<noteq> None" using r [of 2] by (simp add: raggedRows_def)
  moreover have "map td_children (tr_children (headerTable v)) = [Str (ascii ''id''), Str (ascii ''name'')]"
    using p(1) by (simp add: raggedRows_def)
  ultimately show ?thesis using v by simp
qed

end
